theory Spec2Isabelle
  imports Main "HOL-Library.Word"
begin

section \<open>Path parsing and resolution of \<^verbatim>\<open>src/core/utils.js\<close>\<close>

subsection \<open>Values\<close>

text \<open>
  A multihash is a Node \<^verbatim>\<open>Buffer\<close>: a sequence of bytes. A JavaScript \<^verbatim>\<open>Error\<close> is kept
  by its constructor and message. The values handed to \<^verbatim>\<open>resolveIpfsPaths\<close> as an
  ipfs-path are strings or Buffers (\<^verbatim>\<open>typeof path !== 'string'\<close> separates them). A
  string is kept as the bytes of its UTF-8 encoding.
\<close>

type_synonym buffer = "8 word list"

datatype error = Error string | TypeError string

datatype jsval = JString string | JBuffer buffer

text \<open>The object returned by \<^verbatim>\<open>parseIpfsPath\<close>: \<^verbatim>\<open>{ root: root, links: links }\<close>.\<close>

record ParsedPath =
  root :: string
  links :: "string list"

text \<open>
  A node of the object graph as \<^verbatim>\<open>follow\<close> reads it: \<^verbatim>\<open>obj.multihash\<close> and
  \<^verbatim>\<open>obj.links\<close>, every link with its \<^verbatim>\<open>name\<close> and its \<^verbatim>\<open>multihash\<close>.
\<close>

record DAGLink =
  name :: string
  multihash :: buffer

record DAGNode =
  multihash :: buffer
  links :: "DAGLink list"

subsection \<open>The modules the file requires\<close>

text \<open>
  \<^verbatim>\<open>is-ipfs\<close>, \<^verbatim>\<open>multihashes\<close> and the \<^verbatim>\<open>ipfs\<close> node are other packages; the functions
  of theirs that the file calls are parameters of the model. A function that can throw
  returns a sum, \<open>Inl\<close> the error thrown. \<open>Buffer_toString\<close> is the conversion a
  template literal applies to a Buffer. \<open>object_get\<close> is \<^verbatim>\<open>ipfs.object.get\<close>: it
  hands its callback, once, an error or a node, and the graph does not change while a
  path is resolved.
\<close>

record lib =
  isIPFS_multihash :: "string \<Rightarrow> bool"
  multihashes_validate :: "buffer \<Rightarrow> error + unit"
  multihashes_fromB58String :: "string \<Rightarrow> error + buffer"
  Buffer_toString :: "buffer \<Rightarrow> string"

record IPFS =
  object_get :: "buffer \<Rightarrow> error + DAGNode"

subsection \<open>parseIpfsPath\<close>

text \<open>
  The regular expression is \<^verbatim>\<open>/^(?:\/ipfs\/)?([^/]+(?:\/[^/]+)*)\/?$/\<close>.
  \<open>not_slash\<close> is the character class \<^verbatim>\<open>[^/]\<close>.

  \<open>match_segments\<close> matches \<^verbatim>\<open>([^/]+(?:\/[^/]+)*)\/?$\<close> against a whole string and
  returns the text of the capture group. \<^verbatim>\<open>[^/]+\<close> takes the longest run of characters
  other than a slash, which must not be empty (a shorter run would be followed by a
  character that is neither a slash nor the end of input). What follows the run is the
  end of input, or one last slash (\<^verbatim>\<open>\/?$\<close>), or a slash and one more round of
  \<^verbatim>\<open>\/[^/]+\<close>.
\<close>

definition not_slash :: "char \<Rightarrow> bool" where
  "not_slash c = (c \<noteq> CHR ''/'')"

function match_segments :: "string \<Rightarrow> string option" where
  "match_segments s =
     (let seg = takeWhile not_slash s in
      if seg = [] then None
      else case dropWhile not_slash s of
             [] \<Rightarrow> Some seg
           | _ # rest \<Rightarrow>
               (if rest = [] then Some seg
                else case match_segments rest of
                       None \<Rightarrow> None
                     | Some m \<Rightarrow> Some (seg @ CHR ''/'' # m)))"
  by pat_completeness auto
termination
proof (relation "measure length")
  fix s :: string and seg c rest
  assume "dropWhile not_slash s = c # rest"
  then have "length (dropWhile not_slash s) = Suc (length rest)"
    by simp
  moreover have "length (dropWhile not_slash s) \<le> length s"
    by (rule length_dropWhile_le)
  ultimately show "(rest, s) \<in> measure length"
    by simp
qed simp

declare match_segments.simps [simp del]

text \<open>
  \<^verbatim>\<open>ipfsPath.match(...)\<close> on a string: the optional group \<^verbatim>\<open>(?:\/ipfs\/)?\<close> is tried
  first; when the rest does not match after it, the engine backtracks and matches the
  rest from the start of the input. The result is \<^verbatim>\<open>matched[1]\<close>, \<open>None\<close> for
  \<^verbatim>\<open>null\<close>.
\<close>

definition ipfsPath_match :: "string \<Rightarrow> string option" where
  "ipfsPath_match ipfsPath =
     (case (if take 6 ipfsPath = ''/ipfs/'' then match_segments (drop 6 ipfsPath) else None) of
        Some m \<Rightarrow> Some m
      | None \<Rightarrow> match_segments ipfsPath)"

text \<open>\<^verbatim>\<open>String.prototype.split('/')\<close>: the pieces between the slashes, empty ones kept.\<close>

function split_slash :: "string \<Rightarrow> string list" where
  "split_slash s =
     (case dropWhile not_slash s of
        [] \<Rightarrow> [takeWhile not_slash s]
      | _ # rest \<Rightarrow> takeWhile not_slash s # split_slash rest)"
  by pat_completeness auto
termination
proof (relation "measure length")
  fix s :: string and c rest
  assume "dropWhile not_slash s = c # rest"
  then have "length (dropWhile not_slash s) = Suc (length rest)"
    by simp
  moreover have "length (dropWhile not_slash s) \<le> length s"
    by (rule length_dropWhile_le)
  ultimately show "(rest, s) \<in> measure length"
    by simp
qed simp

declare split_slash.simps [simp del]

definition invalidPathErr :: error where
  "invalidPathErr = Error ''invalid ipfs ref path''"

text \<open>
  \<^verbatim>\<open>parseIpfsPath\<close>. A Buffer has no \<^verbatim>\<open>match\<close> method, so the call on line 23 throws a
  TypeError for it. \<^verbatim>\<open>const [root, ...links]\<close> takes the head and the tail of the
  split; on an empty array \<^verbatim>\<open>root\<close> would be \<^verbatim>\<open>undefined\<close>, which is no multihash.
\<close>

definition parseIpfsPath :: "lib \<Rightarrow> jsval \<Rightarrow> error + ParsedPath" where
  "parseIpfsPath L ipfsPath =
     (case ipfsPath of
        JBuffer b \<Rightarrow> Inl (TypeError ''ipfsPath.match is not a function'')
      | JString s \<Rightarrow>
          (case ipfsPath_match s of
             None \<Rightarrow> Inl invalidPathErr
           | Some m \<Rightarrow>
               (case split_slash m of
                  [] \<Rightarrow> Inl invalidPathErr
                | r # ls \<Rightarrow>
                    if isIPFS_multihash L r
                    then Inr \<lparr>root = r, links = ls\<rparr>
                    else Inl invalidPathErr)))"

subsection \<open>resolveIpfsPaths\<close>

text \<open>
  What the function does for one input is observed as a trace: the invocations of the
  continuation \<^verbatim>\<open>cb\<close> in order (\<open>Inl err\<close> for \<^verbatim>\<open>cb(err)\<close>, \<open>Inr h\<close> for
  \<^verbatim>\<open>cb(null, h)\<close>), the multihashes passed to \<^verbatim>\<open>ipfs.object.get\<close> in order, and the
  exception that left the code uncaught, if any.

  \<^verbatim>\<open>cb\<close> belongs to \<^verbatim>\<open>async/map\<close>, which guards the continuation of every input so
  that it runs once: the first invocation returns, a second one throws
  \<^verbatim>\<open>Error('Callback was already called.')\<close>. The trace records every invocation, the
  one that throws included.
\<close>

record trace =
  calls :: "(error + buffer) list"
  fetches :: "buffer list"
  threw :: "error option"

definition start :: trace where
  "start = \<lparr>calls = [], fetches = [], threw = None\<rparr>"

definition alreadyCalled :: error where
  "alreadyCalled = Error ''Callback was already called.''"

definition cb :: "error + buffer \<Rightarrow> trace \<Rightarrow> trace" where
  "cb r t =
     (if calls t = [] then t\<lparr>calls := calls t @ [r]\<rparr>
      else t\<lparr>calls := calls t @ [r], threw := Some alreadyCalled\<rparr>)"

definition fetching :: "buffer \<Rightarrow> trace \<Rightarrow> trace" where
  "fetching h t = t\<lparr>fetches := fetches t @ [h]\<rparr>"

definition throw :: "error \<Rightarrow> trace \<Rightarrow> trace" where
  "throw e t = t\<lparr>threw := Some e\<rparr>"

text \<open>The message of line 102: \<^verbatim>\<open>`no link named '${linkName}' under ${obj.multihash}`\<close>.\<close>

definition noLinkErr :: "lib \<Rightarrow> string \<Rightarrow> DAGNode \<Rightarrow> error" where
  "noLinkErr L linkName obj =
     Error (''no link named '' @ [CHR 0x27] @ linkName @ [CHR 0x27] @ '' under '' @
            Buffer_toString L (DAGNode.multihash obj))"

text \<open>
  \<^verbatim>\<open>follow (links, err, obj)\<close>, the callback of every \<^verbatim>\<open>ipfs.object.get\<close>; the second
  argument is what the accessor handed over. \<^verbatim>\<open>obj.links.find\<close> returns the first link
  that satisfies the test.
\<close>

fun follow :: "lib \<Rightarrow> IPFS \<Rightarrow> string list \<Rightarrow> error + DAGNode \<Rightarrow> trace \<Rightarrow> trace" where
  "follow L ipfs ls (Inl err) t = cb (Inl err) t"
| "follow L ipfs [] (Inr obj) t = cb (Inr (DAGNode.multihash obj)) t"
| "follow L ipfs (linkName # rest) (Inr obj) t =
     (case find (\<lambda>link. name link = linkName) (DAGNode.links obj) of
        None \<Rightarrow> cb (Inl (noLinkErr L linkName obj)) t
      | Some nextObj \<Rightarrow>
          follow L ipfs rest (object_get ipfs (DAGLink.multihash nextObj))
            (fetching (DAGLink.multihash nextObj) t))"

text \<open>
  Lines 64 to 71: the branch for an input that is not a string. Neither \<^verbatim>\<open>cb(err)\<close> nor
  \<^verbatim>\<open>cb(null, path)\<close> is returned: after line 68 control goes on to line 70, and after
  line 70 to line 73, unless the call of \<^verbatim>\<open>cb\<close> threw. Neither call stands in a
  \<^verbatim>\<open>try\<close> block, so what \<^verbatim>\<open>cb\<close> throws leaves the function.
\<close>

definition notString :: "lib \<Rightarrow> jsval \<Rightarrow> trace \<Rightarrow> trace" where
  "notString L path t =
     (case path of
        JString s \<Rightarrow> t
      | JBuffer b \<Rightarrow>
          (let t68 = (case multihashes_validate L b of
                        Inl err \<Rightarrow> cb (Inl err) t
                      | Inr u \<Rightarrow> t)
           in if threw t68 = None then cb (Inr b) t68 else t68))"

text \<open>
  The function that \<^verbatim>\<open>map\<close> runs on every input, lines 63 to 108. Every later call of
  \<^verbatim>\<open>cb\<close> is returned, so the function ends with it, whether \<^verbatim>\<open>cb\<close> returns or throws.
\<close>

definition iteratee :: "lib \<Rightarrow> IPFS \<Rightarrow> jsval \<Rightarrow> trace" where
  "iteratee L ipfs path =
     (let t = notString L path start in
      if threw t = None then
        case parseIpfsPath L path of
          Inl err \<Rightarrow> cb (Inl err) t
        | Inr parsedPath \<Rightarrow>
            (case multihashes_fromB58String L (root parsedPath) of
               Inl exn \<Rightarrow> throw exn t
             | Inr rootHash \<Rightarrow>
                 if ParsedPath.links parsedPath = [] then cb (Inr rootHash) t
                 else follow L ipfs (ParsedPath.links parsedPath) (object_get ipfs rootHash)
                        (fetching rootHash t))
      else t)"

text \<open>
  \<^verbatim>\<open>resolveIpfsPaths\<close> wraps a single input in an array and runs the function above on
  the inputs in order; an exception that leaves the function ends the loop of \<^verbatim>\<open>map\<close>.
  The result is the trace of every input that was started.
\<close>

datatype ipfsPaths = Single jsval | Array "jsval list"

fun mapPaths :: "(jsval \<Rightarrow> trace) \<Rightarrow> jsval list \<Rightarrow> trace list" where
  "mapPaths f [] = []"
| "mapPaths f (path # paths) =
     (let t = f path in if threw t = None then t # mapPaths f paths else [t])"

definition resolveIpfsPaths :: "lib \<Rightarrow> IPFS \<Rightarrow> ipfsPaths \<Rightarrow> trace list" where
  "resolveIpfsPaths L ipfs ipfsPaths =
     mapPaths (iteratee L ipfs)
       (case ipfsPaths of Single path \<Rightarrow> [path] | Array paths \<Rightarrow> paths)"

subsection \<open>The grammar of paths\<close>

text \<open>
  The words the properties of the parser are stated in. A segment is a non-empty string
  without a slash; \<open>join_slash\<close> is \<^verbatim>\<open>Array.prototype.join('/')\<close>; \<open>adjacent_slashes\<close>
  holds of a string in which two slashes stand side by side.
\<close>

definition segment :: "string \<Rightarrow> bool" where
  "segment seg = (seg \<noteq> [] \<and> CHR ''/'' \<notin> set seg)"

fun join_slash :: "string list \<Rightarrow> string" where
  "join_slash [] = []"
| "join_slash [seg] = seg"
| "join_slash (seg # segs) = seg @ CHR ''/'' # join_slash segs"

text \<open>A path without the prefix \<open>/ipfs/\<close>, if it had one.\<close>

definition without_prefix :: "string \<Rightarrow> string" where
  "without_prefix p = (if take 6 p = ''/ipfs/'' then drop 6 p else p)"

fun adjacent_slashes :: "string \<Rightarrow> bool" where
  "adjacent_slashes (a # b # cs) = ((a = CHR ''/'' \<and> b = CHR ''/'') \<or> adjacent_slashes (b # cs))"
| "adjacent_slashes cs = False"

subsection \<open>Paths through the graph\<close>

text \<open>
  \<open>walk ipfs h ls hs target\<close>: from the multihash \<open>h\<close> the names \<open>ls\<close> can be followed
  one after the other, every node being delivered by the accessor and every name found
  among the links of the node reached; \<open>hs\<close> are the multihashes asked for on the way,
  \<open>h\<close> first, and \<open>target\<close> is the node delivered last.
\<close>

inductive walk :: "IPFS \<Rightarrow> buffer \<Rightarrow> string list \<Rightarrow> buffer list \<Rightarrow> DAGNode \<Rightarrow> bool" where
  arrive: "object_get ipfs h = Inr obj \<Longrightarrow> walk ipfs h [] [h] obj"
| step: "object_get ipfs h = Inr obj \<Longrightarrow>
     find (\<lambda>link. name link = linkName) (DAGNode.links obj) = Some nextObj \<Longrightarrow>
     walk ipfs (DAGLink.multihash nextObj) rest hs target \<Longrightarrow>
     walk ipfs h (linkName # rest) (h # hs) target"

subsection \<open>A Buffer in a template literal\<close>

text \<open>
  \<^verbatim>\<open>${obj.multihash}\<close> calls \<^verbatim>\<open>Buffer.prototype.toString()\<close>, which decodes the bytes as
  UTF-8 and puts U+FFFD in the place of what is not UTF-8. The decoder below is the one
  of the Encoding Standard: a lead byte opens a sequence of one to three further bytes
  within bounds; a byte that cannot start or continue a sequence gives U+FFFD, and a
  byte that ends a sequence early is read again as a lead byte. Strings being kept in
  UTF-8, a well-formed sequence stands for itself and U+FFFD is the bytes EF BF BD. The
  state is the number of bytes still needed, the bounds of the next byte, and the bytes
  of the sequence so far.
\<close>

definition replacement :: string where
  "replacement = [CHR 0xEF, CHR 0xBF, CHR 0xBD]"

type_synonym utf8_state = "nat \<times> nat \<times> nat \<times> string"

definition utf8_idle :: utf8_state where
  "utf8_idle = (0, 0x80, 0xBF, [])"

definition utf8_lead :: "nat \<Rightarrow> string \<times> utf8_state" where
  "utf8_lead n =
     (if n \<le> 0x7F then ([char_of n], utf8_idle)
      else if 0xC2 \<le> n \<and> n \<le> 0xDF then ([], (1, 0x80, 0xBF, [char_of n]))
      else if 0xE0 \<le> n \<and> n \<le> 0xEF then
        ([], (2, if n = 0xE0 then 0xA0 else 0x80, if n = 0xED then 0x9F else 0xBF, [char_of n]))
      else if 0xF0 \<le> n \<and> n \<le> 0xF4 then
        ([], (3, if n = 0xF0 then 0x90 else 0x80, if n = 0xF4 then 0x8F else 0xBF, [char_of n]))
      else (replacement, utf8_idle))"

definition utf8_byte :: "utf8_state \<Rightarrow> nat \<Rightarrow> string \<times> utf8_state" where
  "utf8_byte st n =
     (case st of (needed, lower, upper, seen) \<Rightarrow>
        if needed = 0 then utf8_lead n
        else if n < lower \<or> upper < n then
          (case utf8_lead n of (out, st') \<Rightarrow> (replacement @ out, st'))
        else if needed = 1 then (seen @ [char_of n], utf8_idle)
        else ([], (needed - 1, 0x80, 0xBF, seen @ [char_of n])))"

fun utf8_decode :: "utf8_state \<Rightarrow> buffer \<Rightarrow> string" where
  "utf8_decode st [] =
     (case st of (needed, lower, upper, seen) \<Rightarrow> if needed = 0 then [] else replacement)"
| "utf8_decode st (b # bs) =
     (case utf8_byte st (unat b) of (out, st') \<Rightarrow> out @ utf8_decode st' bs)"

definition utf8_toString :: "buffer \<Rightarrow> string" where
  "utf8_toString = utf8_decode utf8_idle"

subsection \<open>An example graph\<close>

text \<open>
  The graph \<open>root -a-> n1 -b-> n2\<close>, with a toy codec: the only valid identifier text
  is \<open>root\<close>, it decodes to the bytes \<open>[1]\<close>; \<open>n1\<close> is \<open>[2]\<close> and \<open>n2\<close> is \<open>[3]\<close>.
  In \<open>n1\<close> a second link named \<open>b\<close> follows the first. A Buffer is a multihash when
  its second byte is the length of what follows it.
\<close>

definition toyLib :: lib where
  "toyLib =
     \<lparr>isIPFS_multihash = (\<lambda>s. s = ''root''),
      multihashes_validate =
        (\<lambda>b. case b of
               code # len # digest \<Rightarrow>
                 if digest = [] then Inl (Error ''multihash too short. must be > 3 bytes.'')
                 else if unat len = length digest then Inr ()
                 else Inl (Error ''multihash length inconsistent'')
             | _ \<Rightarrow> Inl (Error ''multihash too short. must be > 3 bytes.'')),
      multihashes_fromB58String =
        (\<lambda>s. if s = ''root'' then Inr [1] else Inl (Error ''Non-base58 character'')),
      Buffer_toString = utf8_toString\<rparr>"

definition toyGraph :: IPFS where
  "toyGraph =
     \<lparr>object_get = (\<lambda>h.
        if h = [1] then Inr \<lparr>multihash = [1], links = [\<lparr>name = ''a'', multihash = [2]\<rparr>]\<rparr>
        else if h = [2] then
          Inr \<lparr>multihash = [2],
               links = [\<lparr>name = ''b'', multihash = [3]\<rparr>, \<lparr>name = ''b'', multihash = [4]\<rparr>]\<rparr>
        else if h = [3] then Inr \<lparr>multihash = [3], links = []\<rparr>
        else Inl (Error ''not found''))\<rparr>"

text \<open>
  An accessor whose node under \<open>[2]\<close> reports another multihash of its own, \<open>[9]\<close>.
\<close>

definition relabelledGraph :: IPFS where
  "relabelledGraph =
     \<lparr>object_get = (\<lambda>h.
        if h = [1] then Inr \<lparr>multihash = [1], links = [\<lparr>name = ''a'', multihash = [2]\<rparr>]\<rparr>
        else if h = [2] then Inr \<lparr>multihash = [9], links = []\<rparr>
        else Inl (Error ''not found''))\<rparr>"

text \<open>
  Two sha2-256 multihashes (code 0x12, length 0x20, thirty-two bytes of digest) that
  differ in the first byte of the digest.
\<close>

definition mhFF :: buffer where
  "mhFF = [0x12, 0x20, 0xFF] @ replicate 31 0"


section \<open>Properties\<close>

subsection \<open>The trace operations\<close>

lemma calls_cb [simp]: "calls (cb r t) = calls t @ [r]"
  and fetches_cb [simp]: "fetches (cb r t) = fetches t"
  and threw_cb [simp]: "threw (cb r t) = (if calls t = [] then threw t else Some alreadyCalled)"
  by (simp_all add: cb_def)

lemma calls_fetching [simp]: "calls (fetching h t) = calls t"
  and fetches_fetching [simp]: "fetches (fetching h t) = fetches t @ [h]"
  and threw_fetching [simp]: "threw (fetching h t) = threw t"
  by (simp_all add: fetching_def)

lemma calls_throw [simp]: "calls (throw e t) = calls t"
  and fetches_throw [simp]: "fetches (throw e t) = fetches t"
  and threw_throw [simp]: "threw (throw e t) = Some e"
  by (simp_all add: throw_def)

lemma start_simps [simp]: "calls start = []" "fetches start = []" "threw start = None"
  by (simp_all add: start_def)

lemma notString_JString [simp]: "notString L (JString s) t = t"
  by (simp add: notString_def)

text \<open>What \<open>resolveIpfsPaths\<close> returns is made of the traces of \<open>iteratee\<close>.\<close>

lemma resolveIpfsPaths_Single: "resolveIpfsPaths L ipfs (Single path) = [iteratee L ipfs path]"
  by (simp add: resolveIpfsPaths_def Let_def)

lemma mapPaths_nth:
  "i < length paths \<Longrightarrow> \<forall>j<i. threw (f (paths ! j)) = None \<Longrightarrow>
   i < length (mapPaths f paths) \<and> mapPaths f paths ! i = f (paths ! i)"
proof (induction paths arbitrary: i)
  case Nil
  then show ?case by simp
next
  case (Cons p ps)
  show ?case
  proof (cases i)
    case 0
    then show ?thesis by (simp add: Let_def)
  next
    case (Suc k)
    with Cons.prems have "threw (f p) = None" by auto
    moreover from Suc Cons.prems have "k < length ps" "\<forall>j<k. threw (f (ps ! j)) = None"
      by auto
    ultimately show ?thesis using Cons.IH [of k] Suc by (simp add: Let_def)
  qed
qed

lemma resolveIpfsPaths_Array_nth:
  "i < length paths \<Longrightarrow> \<forall>j<i. threw (iteratee L ipfs (paths ! j)) = None \<Longrightarrow>
   resolveIpfsPaths L ipfs (Array paths) ! i = iteratee L ipfs (paths ! i)"
  by (simp add: resolveIpfsPaths_def mapPaths_nth)

text \<open>A string that parses: the rest of \<open>iteratee\<close>, lines 80 to 86.\<close>

lemma iteratee_JString:
  "parseIpfsPath L (JString s) = Inr p \<Longrightarrow>
   iteratee L ipfs (JString s) =
     (case multihashes_fromB58String L (root p) of
        Inl exn \<Rightarrow> throw exn start
      | Inr rootHash \<Rightarrow>
          if ParsedPath.links p = [] then cb (Inr rootHash) start
          else follow L ipfs (ParsedPath.links p) (object_get ipfs rootHash)
                 (fetching rootHash start))"
  by (simp add: iteratee_def)

subsection \<open>Root-only paths\<close>

text \<open>
  C5. A string that parses to a path with no links is answered with the decoding of
  its root by \<^verbatim>\<open>multihashes.fromB58String\<close> and nothing else: the continuation is called
  once with that Buffer, and \<^verbatim>\<open>ipfs.object.get\<close> is never called. Should the decoder
  throw, its exception leaves the function, still without a fetch.
\<close>

theorem root_only_decodes_without_fetch:
  assumes "parseIpfsPath L (JString s) = Inr p" and "ParsedPath.links p = []"
  shows "iteratee L ipfs (JString s) =
     (case multihashes_fromB58String L (root p) of
        Inl exn \<Rightarrow> \<lparr>calls = [], fetches = [], threw = Some exn\<rparr>
      | Inr rootHash \<Rightarrow> \<lparr>calls = [Inr rootHash], fetches = [], threw = None\<rparr>)"
  using assms by (simp add: iteratee_JString cb_def throw_def start_def split: sum.splits)

theorem root_only_decodes_without_fetch_witness:
  "parseIpfsPath toyLib (JString ''/ipfs/root/'') = Inr \<lparr>root = ''root'', links = []\<rparr> \<and>
   ParsedPath.links \<lparr>root = ''root'', links = []\<rparr> = [] \<and>
   iteratee toyLib toyGraph (JString ''/ipfs/root/'') =
     \<lparr>calls = [Inr [1]], fetches = [], threw = None\<rparr>"
proof -
  have p: "parseIpfsPath toyLib (JString ''/ipfs/root/'') = Inr \<lparr>root = ''root'', links = []\<rparr>"
    by code_simp
  from root_only_decodes_without_fetch [OF p, of toyGraph] show ?thesis
    using p by (simp add: toyLib_def)
qed

subsection \<open>The regular expression\<close>

lemma match_segments_Nil: "match_segments [] = None"
  by (simp add: match_segments.simps)

lemma match_segments_slash: "match_segments (CHR ''/'' # s) = None"
  by (simp add: match_segments.simps not_slash_def)

lemma adjacent_slashes_append: "adjacent_slashes (a @ ''//'' @ b)"
proof (induction a)
  case Nil
  show ?case by simp
next
  case (Cons x xs)
  then show ?case by (cases xs) simp_all
qed

lemma adjacent_slashes_free: "\<forall>c \<in> set s. not_slash c \<Longrightarrow> \<not> adjacent_slashes s"
  by (induction s rule: adjacent_slashes.induct) (simp_all add: not_slash_def)

lemma adjacent_slashes_seg:
  "\<forall>c \<in> set seg. not_slash c \<Longrightarrow>
   adjacent_slashes (seg @ CHR ''/'' # rest) = adjacent_slashes (CHR ''/'' # rest)"
proof (induction seg)
  case Nil
  show ?case by simp
next
  case (Cons x xs)
  then show ?case by (cases xs) (simp_all add: not_slash_def)
qed

lemma adjacent_slashes_slash:
  "adjacent_slashes (CHR ''/'' # rest) =
     (rest \<noteq> [] \<and> (hd rest = CHR ''/'' \<or> adjacent_slashes rest))"
  by (cases rest) auto

lemma split_at_slash:
  assumes "dropWhile not_slash s = c # rest"
  shows "c = CHR ''/'' \<and> s = takeWhile not_slash s @ CHR ''/'' # rest"
proof -
  from assms have "\<not> not_slash (hd (dropWhile not_slash s))"
    by (metis hd_dropWhile list.distinct(1))
  with assms have c: "c = CHR ''/''"
    by (simp add: not_slash_def)
  have "s = takeWhile not_slash s @ dropWhile not_slash s"
    by simp
  with assms c show ?thesis by simp
qed

lemma takeWhile_free: "\<forall>c \<in> set (takeWhile not_slash s). not_slash c"
  by (auto dest: set_takeWhileD)

text \<open>What the expression matches starts with no slash and has no two slashes in a row.\<close>

lemma match_segments_SomeD:
  "match_segments s = Some m \<Longrightarrow> s \<noteq> [] \<and> hd s \<noteq> CHR ''/'' \<and> \<not> adjacent_slashes s"
proof (induction s arbitrary: m rule: match_segments.induct)
  case (1 s)
  let ?seg = "takeWhile not_slash s"
  from "1.prems" have seg: "?seg \<noteq> []"
    by (subst (asm) match_segments.simps) (auto simp: Let_def split: if_splits)
  then have ne: "s \<noteq> []" by auto
  from seg have "hd s = hd ?seg" by (cases s) (auto split: if_splits)
  moreover from seg have "hd ?seg \<in> set ?seg" by simp
  ultimately have hd: "hd s \<noteq> CHR ''/''"
    using takeWhile_free [of s] by (auto simp: not_slash_def)
  have "\<not> adjacent_slashes s"
  proof (cases "dropWhile not_slash s")
    case Nil
    then have "\<forall>c \<in> set s. not_slash c" by (simp add: dropWhile_eq_Nil_conv)
    then show ?thesis by (rule adjacent_slashes_free)
  next
    case (Cons c rest)
    from split_at_slash [OF Cons] have s: "s = ?seg @ CHR ''/'' # rest" by simp
    have ds: "adjacent_slashes s = adjacent_slashes (CHR ''/'' # rest)"
      by (subst s) (rule adjacent_slashes_seg [OF takeWhile_free])
    show ?thesis
    proof (cases "rest = []")
      case True
      with ds show ?thesis by simp
    next
      case False
      with "1.prems" seg Cons obtain m' where "match_segments rest = Some m'"
        by (subst (asm) match_segments.simps) (auto simp: Let_def split: option.splits)
      from "1.IH" [OF refl seg Cons False this] ds show ?thesis
        by (simp add: adjacent_slashes_slash)
    qed
  qed
  with ne hd show ?case by simp
qed

lemma match_segments_adjacent_slashes: "adjacent_slashes s \<Longrightarrow> match_segments s = None"
  using match_segments_SomeD [of s] by (cases "match_segments s") auto

lemma ipfsPath_match_adjacent_slashes:
  assumes "adjacent_slashes s"
  shows "ipfsPath_match s = None"
proof -
  from assms have whole: "match_segments s = None"
    by (rule match_segments_adjacent_slashes)
  show ?thesis
  proof (cases "take 6 s = ''/ipfs/''")
    case False
    with whole show ?thesis by (simp add: ipfsPath_match_def)
  next
    case True
    have "s = take 6 s @ drop 6 s" by simp
    with True have s: "s = ''/ipfs/'' @ drop 6 s" by simp
    from assms have "adjacent_slashes (CHR ''/'' # drop 6 s)"
      by (subst (asm) s) simp
    then have "drop 6 s \<noteq> [] \<and> (hd (drop 6 s) = CHR ''/'' \<or> adjacent_slashes (drop 6 s))"
      by (simp add: adjacent_slashes_slash)
    then have "match_segments (drop 6 s) = None"
      using match_segments_SomeD [of "drop 6 s"] by (cases "match_segments (drop 6 s)") auto
    with whole show ?thesis by (simp add: ipfsPath_match_def)
  qed
qed

text \<open>
  C6. \<^verbatim>\<open>parseIpfsPath\<close> throws the error \<open>invalid ipfs ref path\<close> on the empty string,
  on \<open>/\<close>, and on every string in which \<open>//\<close> occurs.
\<close>

theorem empty_segments_rejected:
  "parseIpfsPath L (JString '''') = Inl invalidPathErr \<and>
   parseIpfsPath L (JString ''/'') = Inl invalidPathErr \<and>
   (\<forall>a b. parseIpfsPath L (JString (a @ ''//'' @ b)) = Inl invalidPathErr)"
proof -
  have "ipfsPath_match '''' = None"
    by (simp add: ipfsPath_match_def match_segments_Nil)
  moreover have "ipfsPath_match ''/'' = None"
    by (simp add: ipfsPath_match_def match_segments_slash)
  moreover have "ipfsPath_match (a @ ''//'' @ b) = None" for a b
    by (rule ipfsPath_match_adjacent_slashes) (rule adjacent_slashes_append)
  ultimately show ?thesis by (simp add: parseIpfsPath_def)
qed

theorem empty_segments_rejected_witness:
  "parseIpfsPath toyLib (JString ''root//b'') = Inl invalidPathErr \<and>
   parseIpfsPath toyLib (JString ''/ipfs//root'') = Inl invalidPathErr \<and>
   parseIpfsPath toyLib (JString ''root/a//'') = Inl invalidPathErr"
  using empty_segments_rejected [of toyLib, THEN conjunct2, THEN conjunct2, THEN spec,
      THEN spec, of "''root''" "''b''"]
    empty_segments_rejected [of toyLib, THEN conjunct2, THEN conjunct2, THEN spec,
      THEN spec, of "''/ipfs''" "''root''"]
    empty_segments_rejected [of toyLib, THEN conjunct2, THEN conjunct2, THEN spec,
      THEN spec, of "''root/a''" "''''"]
  by simp

subsection \<open>Well-formed paths\<close>

lemma takeWhile_segment [simp]:
  assumes "segment seg"
  shows "takeWhile not_slash (seg @ CHR ''/'' # rest) = seg"
proof -
  from assms have "\<And>c. c \<in> set seg \<Longrightarrow> not_slash c"
    by (auto simp: segment_def not_slash_def)
  then have "takeWhile not_slash (seg @ CHR ''/'' # rest) =
      seg @ takeWhile not_slash (CHR ''/'' # rest)"
    by (rule takeWhile_append2)
  then show ?thesis by (simp add: not_slash_def)
qed

lemma dropWhile_segment [simp]:
  assumes "segment seg"
  shows "dropWhile not_slash (seg @ CHR ''/'' # rest) = CHR ''/'' # rest"
proof -
  from assms have "\<And>c. c \<in> set seg \<Longrightarrow> not_slash c"
    by (auto simp: segment_def not_slash_def)
  then have "dropWhile not_slash (seg @ CHR ''/'' # rest) =
      dropWhile not_slash (CHR ''/'' # rest)"
    by (rule dropWhile_append2)
  then show ?thesis by (simp add: not_slash_def)
qed

lemma segment_free: "segment seg \<Longrightarrow> \<forall>c \<in> set seg. not_slash c"
  by (auto simp: segment_def not_slash_def)

lemma takeWhile_segment_only [simp]: "segment seg \<Longrightarrow> takeWhile not_slash seg = seg"
  by (simp add: takeWhile_eq_all_conv segment_free)

lemma dropWhile_segment_only [simp]: "segment seg \<Longrightarrow> dropWhile not_slash seg = []"
  by (simp add: dropWhile_eq_Nil_conv segment_free)

lemma segment_Nil [simp]: "segment seg \<Longrightarrow> seg \<noteq> []"
  by (simp add: segment_def)

lemma join_slash_Cons:
  "join_slash (seg # segs) = (if segs = [] then seg else seg @ CHR ''/'' # join_slash segs)"
  by (cases segs) simp_all

lemma join_slash_Nil_iff:
  "\<forall>seg \<in> set segs. segment seg \<Longrightarrow> join_slash segs = [] \<longleftrightarrow> segs = []"
  by (cases segs) (auto simp: join_slash_Cons)

lemma hd_join_slash: "segment seg \<Longrightarrow> hd (join_slash (seg # segs) @ trail) = hd seg"
  by (cases seg) (auto simp: join_slash_Cons segment_def)

text \<open>
  Segments joined by slashes, with or without one slash after them, match, and the
  capture group is the joined segments.
\<close>

lemma match_segments_join:
  "\<forall>seg \<in> set (r # ls). segment seg \<Longrightarrow>
   match_segments (join_slash (r # ls)) = Some (join_slash (r # ls)) \<and>
   match_segments (join_slash (r # ls) @ ''/'') = Some (join_slash (r # ls))"
proof (induction ls arbitrary: r)
  case Nil
  then have r: "segment r" by simp
  then have "match_segments r = Some r"
    by (subst match_segments.simps) simp
  moreover from r have "match_segments (r @ ''/'') = Some r"
    by (subst match_segments.simps) simp
  ultimately show ?case by simp
next
  case (Cons l ls)
  then have r: "segment r" and rest: "\<forall>seg \<in> set (l # ls). segment seg"
    by simp_all
  from rest have ne: "join_slash (l # ls) \<noteq> []"
    using join_slash_Nil_iff [of "l # ls"] by simp
  from Cons.IH [OF rest] r ne
  have "match_segments (r @ CHR ''/'' # join_slash (l # ls)) =
      Some (r @ CHR ''/'' # join_slash (l # ls))"
    by (subst match_segments.simps) simp
  moreover from Cons.IH [OF rest] r ne
  have "match_segments (r @ CHR ''/'' # join_slash (l # ls) @ ''/'') =
      Some (r @ CHR ''/'' # join_slash (l # ls))"
    by (subst match_segments.simps) simp
  ultimately show ?case by simp
qed

lemma split_slash_join:
  "\<forall>seg \<in> set (r # ls). segment seg \<Longrightarrow> split_slash (join_slash (r # ls)) = r # ls"
proof (induction ls arbitrary: r)
  case Nil
  then show ?case by (subst split_slash.simps) simp
next
  case (Cons l ls)
  then have r: "segment r" and rest: "\<forall>seg \<in> set (l # ls). segment seg"
    by simp_all
  from Cons.IH [OF rest] r show ?case
    by (subst split_slash.simps) simp
qed

lemma ipfsPath_match_prefix: "ipfsPath_match (''/ipfs/'' @ p) = match_segments p"
  by (cases "match_segments p") (simp_all add: ipfsPath_match_def match_segments_slash)

lemma ipfsPath_match_no_prefix:
  "take 6 p \<noteq> ''/ipfs/'' \<Longrightarrow> ipfsPath_match p = match_segments p"
  by (simp add: ipfsPath_match_def)

lemma parseIpfsPath_prefix:
  assumes "take 6 p \<noteq> ''/ipfs/''"
  shows "parseIpfsPath L (JString (''/ipfs/'' @ p)) = parseIpfsPath L (JString p)"
proof -
  have "ipfsPath_match (''/ipfs/'' @ p) = ipfsPath_match p"
    by (simp only: ipfsPath_match_prefix ipfsPath_match_no_prefix [OF assms])
  then show ?thesis
    by (simp only: parseIpfsPath_def jsval.case)
qed

lemma ipfsPath_match_join:
  assumes "pre = [] \<or> pre = ''/ipfs/''" and "trail = [] \<or> trail = ''/''"
    and "\<forall>seg \<in> set (r # ls). segment seg"
  shows "ipfsPath_match (pre @ join_slash (r # ls) @ trail) = Some (join_slash (r # ls))"
proof -
  from assms(2) match_segments_join [OF assms(3)]
  have body: "match_segments (join_slash (r # ls) @ trail) = Some (join_slash (r # ls))"
    by auto
  from assms(3) have r: "segment r" by simp
  then have "hd (join_slash (r # ls) @ trail) \<noteq> CHR ''/''"
    by (cases r) (auto simp: hd_join_slash segment_def)
  moreover have "join_slash (r # ls) @ trail \<noteq> []"
    using r by (auto simp: join_slash_Cons)
  ultimately have "take 6 (join_slash (r # ls) @ trail) \<noteq> ''/ipfs/''"
    by (cases "join_slash (r # ls) @ trail") auto
  with body assms(1) show ?thesis
    by (auto simp: ipfsPath_match_prefix ipfsPath_match_no_prefix simp del: append_Cons)
qed

text \<open>
  \<^verbatim>\<open>parseIpfsPath\<close> on a well-formed path: the first segment is the root, the others
  are the links, and the root decides between the object and the error.
\<close>

lemma parseIpfsPath_join:
  assumes "pre = [] \<or> pre = ''/ipfs/''" and "trail = [] \<or> trail = ''/''"
    and "\<forall>seg \<in> set (r # ls). segment seg"
  shows "parseIpfsPath L (JString (pre @ join_slash (r # ls) @ trail)) =
     (if isIPFS_multihash L r then Inr \<lparr>root = r, links = ls\<rparr> else Inl invalidPathErr)"
  by (simp add: parseIpfsPath_def ipfsPath_match_join [OF assms] split_slash_join [OF assms(3)]
      del: append_Cons)

text \<open>
  The expression matches these strings and no others, so the well-formed paths are
  exactly the strings on which \<^verbatim>\<open>match\<close> does not return \<^verbatim>\<open>null\<close>.
\<close>

lemma match_segments_SomeE:
  "match_segments s = Some m \<Longrightarrow>
   \<exists>r ls trail. (\<forall>seg \<in> set (r # ls). segment seg) \<and> (trail = [] \<or> trail = ''/'') \<and>
     s = join_slash (r # ls) @ trail \<and> m = join_slash (r # ls)"
proof (induction s arbitrary: m rule: match_segments.induct)
  case (1 s)
  let ?seg = "takeWhile not_slash s"
  from "1.prems" have ne: "?seg \<noteq> []"
    by (subst (asm) match_segments.simps) (auto simp: Let_def split: if_splits)
  with takeWhile_free [of s] have seg: "segment ?seg"
    by (auto simp: segment_def not_slash_def)
  show ?case
  proof (cases "dropWhile not_slash s")
    case Nil
    with "1.prems" ne have m: "m = ?seg"
      by (subst (asm) match_segments.simps) (simp add: Let_def)
    from Nil have "s = ?seg"
      by (metis append_Nil2 takeWhile_dropWhile_id)
    with m seg have "(\<forall>x \<in> set (?seg # []). segment x) \<and> ([] = [] \<or> [] = ''/'') \<and>
        s = join_slash (?seg # []) @ [] \<and> m = join_slash (?seg # [])"
      by simp
    then show ?thesis by blast
  next
    case (Cons c rest)
    from split_at_slash [OF Cons] have s: "s = ?seg @ CHR ''/'' # rest" by simp
    show ?thesis
    proof (cases "rest = []")
      case True
      with "1.prems" ne Cons have m: "m = ?seg"
        by (subst (asm) match_segments.simps) (simp add: Let_def)
      from s True have "s = ?seg @ ''/''" by simp
      with m seg have "(\<forall>x \<in> set (?seg # []). segment x) \<and> (''/'' = [] \<or> ''/'' = ''/'') \<and>
          s = join_slash (?seg # []) @ ''/'' \<and> m = join_slash (?seg # [])"
        by simp
      then show ?thesis by blast
    next
      case False
      with "1.prems" ne Cons obtain m' where
        m': "match_segments rest = Some m'" and m: "m = ?seg @ CHR ''/'' # m'"
        by (subst (asm) match_segments.simps) (auto simp: Let_def split: option.splits)
      from "1.IH" [OF refl ne Cons False m'] obtain r ls trail where
        segs: "\<forall>x \<in> set (r # ls). segment x" and trail: "trail = [] \<or> trail = ''/''"
        and rest: "rest = join_slash (r # ls) @ trail" and jm: "m' = join_slash (r # ls)"
        by blast
      from s rest have "s = join_slash (?seg # r # ls) @ trail" by simp
      moreover from m jm have "m = join_slash (?seg # r # ls)" by simp
      moreover from seg segs have "\<forall>x \<in> set (?seg # r # ls). segment x" by simp
      ultimately show ?thesis using trail by blast
    qed
  qed
qed

lemma ipfsPath_match_iff:
  "ipfsPath_match s = Some m \<longleftrightarrow>
   (\<exists>pre r ls trail. (pre = [] \<or> pre = ''/ipfs/'') \<and> (trail = [] \<or> trail = ''/'') \<and>
      (\<forall>seg \<in> set (r # ls). segment seg) \<and>
      s = pre @ join_slash (r # ls) @ trail \<and> m = join_slash (r # ls))"
proof
  assume a: "ipfsPath_match s = Some m"
  show "\<exists>pre r ls trail. (pre = [] \<or> pre = ''/ipfs/'') \<and> (trail = [] \<or> trail = ''/'') \<and>
      (\<forall>seg \<in> set (r # ls). segment seg) \<and>
      s = pre @ join_slash (r # ls) @ trail \<and> m = join_slash (r # ls)"
  proof (cases "take 6 s = ''/ipfs/'' \<and> match_segments (drop 6 s) = Some m")
    case True
    then obtain r ls trail where
      *: "\<forall>seg \<in> set (r # ls). segment seg" "trail = [] \<or> trail = ''/''"
        "drop 6 s = join_slash (r # ls) @ trail" "m = join_slash (r # ls)"
      using match_segments_SomeE [of "drop 6 s" m] by blast
    have "s = take 6 s @ drop 6 s" by simp
    with True * have "s = ''/ipfs/'' @ join_slash (r # ls) @ trail" by simp
    with * show ?thesis by blast
  next
    case False
    with a have "match_segments s = Some m"
      by (auto simp: ipfsPath_match_def split: if_splits option.splits)
    then obtain r ls trail where
      *: "\<forall>seg \<in> set (r # ls). segment seg" "trail = [] \<or> trail = ''/''"
        "s = join_slash (r # ls) @ trail" "m = join_slash (r # ls)"
      using match_segments_SomeE [of s m] by blast
    then have "s = [] @ join_slash (r # ls) @ trail" by simp
    with * show ?thesis by blast
  qed
next
  assume "\<exists>pre r ls trail. (pre = [] \<or> pre = ''/ipfs/'') \<and> (trail = [] \<or> trail = ''/'') \<and>
      (\<forall>seg \<in> set (r # ls). segment seg) \<and>
      s = pre @ join_slash (r # ls) @ trail \<and> m = join_slash (r # ls)"
  then show "ipfsPath_match s = Some m"
    using ipfsPath_match_join by blast
qed

lemma split_slash_not_Nil: "split_slash s \<noteq> []"
  by (subst split_slash.simps) (simp split: list.splits)

text \<open>
  C7. A well-formed string (the prefix \<open>/ipfs/\<close> or none, one or more non-empty
  segments without a slash joined by slashes, one slash after them or none) whose
  first segment is not a multihash for \<^verbatim>\<open>isIPFS.multihash\<close> makes
  \<^verbatim>\<open>parseIpfsPath\<close> throw \<open>invalid ipfs ref path\<close>.
\<close>

theorem invalid_root_rejected:
  assumes "pre = [] \<or> pre = ''/ipfs/''" and "trail = [] \<or> trail = ''/''"
    and "\<forall>seg \<in> set (r # ls). seg \<noteq> [] \<and> CHR ''/'' \<notin> set seg"
    and "\<not> isIPFS_multihash L r"
  shows "parseIpfsPath L (JString (pre @ join_slash (r # ls) @ trail)) = Inl invalidPathErr"
proof -
  from assms(3) have "\<forall>seg \<in> set (r # ls). segment seg"
    by (simp add: segment_def)
  from parseIpfsPath_join [OF assms(1,2) this] assms(4) show ?thesis by simp
qed

theorem invalid_root_rejected_witness:
  "\<not> isIPFS_multihash toyLib ''Qm'' \<and>
   parseIpfsPath toyLib (JString ''/ipfs/Qm/a/b/'') = Inl invalidPathErr"
proof -
  have v: "\<not> isIPFS_multihash toyLib ''Qm''"
    by (simp add: toyLib_def)
  have "parseIpfsPath toyLib (JString (''/ipfs/'' @ join_slash [''Qm'', ''a'', ''b''] @ ''/'')) =
      Inl invalidPathErr"
    by (rule invalid_root_rejected [OF _ _ _ v]) simp_all
  with v show ?thesis by simp
qed

text \<open>
  An accepted path names the same root and links with its prefix and without it.
\<close>

lemma parse_accepted_match:
  "parseIpfsPath L (JString p) = Inr parsed \<Longrightarrow> \<exists>m. ipfsPath_match p = Some m"
  by (cases "ipfsPath_match p") (simp_all add: parseIpfsPath_def)

lemma take_without_prefix:
  assumes "ipfsPath_match p = Some m"
  shows "take 6 (without_prefix p) \<noteq> ''/ipfs/'' \<and> ipfsPath_match (without_prefix p) = Some m"
proof (cases "take 6 p = ''/ipfs/''")
  case False
  with assms show ?thesis by (simp add: without_prefix_def)
next
  case True
  have "p = take 6 p @ drop 6 p" by simp
  with True have p: "p = CHR ''/'' # ''ipfs/'' @ drop 6 p" by simp
  have "match_segments p = None"
    by (subst p) (rule match_segments_slash)
  with assms True have body: "match_segments (drop 6 p) = Some m"
    by (cases "match_segments (drop 6 p)") (simp_all add: ipfsPath_match_def)
  from match_segments_SomeD [OF body] have "take 6 (drop 6 p) \<noteq> ''/ipfs/''"
    by (cases "drop 6 p") auto
  with body True show ?thesis
    by (simp add: without_prefix_def ipfsPath_match_no_prefix)
qed

lemma parseIpfsPath_without_prefix:
  assumes "parseIpfsPath L (JString p) = Inr parsed"
  shows "parseIpfsPath L (JString (without_prefix p)) = Inr parsed"
    and "parseIpfsPath L (JString (''/ipfs/'' @ without_prefix p)) = Inr parsed"
proof -
  from parse_accepted_match [OF assms] obtain m where m: "ipfsPath_match p = Some m"
    by blast
  from take_without_prefix [OF m]
  have n: "take 6 (without_prefix p) \<noteq> ''/ipfs/''"
    and w: "ipfsPath_match (without_prefix p) = ipfsPath_match p"
    using m by simp_all
  from w have "parseIpfsPath L (JString (without_prefix p)) = parseIpfsPath L (JString p)"
    by (simp only: parseIpfsPath_def jsval.case)
  with assms show a: "parseIpfsPath L (JString (without_prefix p)) = Inr parsed"
    by (simp only:)
  from parseIpfsPath_prefix [OF n, of L] a
  show "parseIpfsPath L (JString (''/ipfs/'' @ without_prefix p)) = Inr parsed"
    by (simp only:)
qed

text \<open>
  C8. For every string \<open>p\<close> that \<^verbatim>\<open>parseIpfsPath\<close> accepts, \<open>p\<close> with the prefix
  \<open>/ipfs/\<close> and \<open>p\<close> without it are parsed to the same object, the one \<open>p\<close> itself
  is parsed to. When \<open>root\<close> is a multihash, \<open>root/a/b\<close> and \<open>/ipfs/root/a/b\<close> both
  give the root \<open>root\<close> and the links \<open>a\<close>, \<open>b\<close>.
\<close>

theorem prefix_stripped:
  "(parseIpfsPath L (JString p) = Inr parsed \<longrightarrow>
      parseIpfsPath L (JString (''/ipfs/'' @ without_prefix p)) = Inr parsed \<and>
      parseIpfsPath L (JString (without_prefix p)) = Inr parsed) \<and>
   (isIPFS_multihash L ''root'' \<longrightarrow>
      parseIpfsPath L (JString ''root/a/b'') = Inr \<lparr>root = ''root'', links = [''a'', ''b'']\<rparr> \<and>
      parseIpfsPath L (JString ''/ipfs/root/a/b'') =
        Inr \<lparr>root = ''root'', links = [''a'', ''b'']\<rparr>)"
proof -
  have seg: "\<forall>seg \<in> set [''root'', ''a'', ''b'']. segment seg"
    by (simp add: segment_def)
  from parseIpfsPath_join [of "[]" "[]", OF _ _ seg, of L]
  have a: "isIPFS_multihash L ''root'' \<longrightarrow>
      parseIpfsPath L (JString ''root/a/b'') = Inr \<lparr>root = ''root'', links = [''a'', ''b'']\<rparr>"
    by simp
  from parseIpfsPath_join [of "''/ipfs/''" "[]", OF _ _ seg, of L]
  have b: "isIPFS_multihash L ''root'' \<longrightarrow>
      parseIpfsPath L (JString ''/ipfs/root/a/b'') =
        Inr \<lparr>root = ''root'', links = [''a'', ''b'']\<rparr>"
    by simp
  have c: "parseIpfsPath L (JString p) = Inr parsed \<longrightarrow>
      parseIpfsPath L (JString (''/ipfs/'' @ without_prefix p)) = Inr parsed \<and>
      parseIpfsPath L (JString (without_prefix p)) = Inr parsed"
  proof
    assume h: "parseIpfsPath L (JString p) = Inr parsed"
    from parseIpfsPath_without_prefix [OF h]
    show "parseIpfsPath L (JString (''/ipfs/'' @ without_prefix p)) = Inr parsed \<and>
      parseIpfsPath L (JString (without_prefix p)) = Inr parsed"
      by (intro conjI)
  qed
  from c a b show ?thesis by (intro conjI impI) blast+
qed

theorem prefix_stripped_witness:
  "parseIpfsPath toyLib (JString ''/ipfs/root/a/'') = Inr \<lparr>root = ''root'', links = [''a'']\<rparr> \<and>
   without_prefix ''/ipfs/root/a/'' = ''root/a/'' \<and>
   parseIpfsPath toyLib (JString ''root/a/'') = Inr \<lparr>root = ''root'', links = [''a'']\<rparr> \<and>
   isIPFS_multihash toyLib ''root'' \<and>
   parseIpfsPath toyLib (JString ''root/a/b'') =
     Inr \<lparr>root = ''root'', links = [''a'', ''b'']\<rparr> \<and>
   parseIpfsPath toyLib (JString ''/ipfs/root/a/b'') =
     Inr \<lparr>root = ''root'', links = [''a'', ''b'']\<rparr>"
proof -
  have w: "without_prefix ''/ipfs/root/a/'' = ''root/a/''"
    by (simp add: without_prefix_def)
  have p: "parseIpfsPath toyLib (JString ''/ipfs/root/a/'') =
      Inr \<lparr>root = ''root'', links = [''a'']\<rparr>"
    by code_simp
  have v: "isIPFS_multihash toyLib ''root''"
    by (simp add: toyLib_def)
  from prefix_stripped [of toyLib "''/ipfs/root/a/''" "\<lparr>root = ''root'', links = [''a'']\<rparr>"]
    w p v
  show ?thesis by simp
qed

text \<open>The prefix is accepted once: a path that carries it twice is rejected.\<close>

lemma doubled_prefix_rejected:
  "parseIpfsPath L (JString (''/ipfs/'' @ ''/ipfs/'' @ p)) = Inl invalidPathErr"
proof -
  have "ipfsPath_match (''/ipfs/'' @ ''/ipfs/'' @ p) = None"
    by (simp only: ipfsPath_match_prefix) (simp add: match_segments_slash)
  then show ?thesis
    by (simp only: parseIpfsPath_def jsval.case option.case)
qed

subsection \<open>Link following\<close>

lemma threw_follow:
  "threw (follow L ipfs ls r t) = (if calls t = [] then threw t else Some alreadyCalled)"
  by (induction L ipfs ls r t rule: follow.induct) (simp_all split: option.splits)

text \<open>\<open>follow\<close> calls back exactly once, whatever the graph.\<close>

lemma calls_follow: "\<exists>r'. calls (follow L ipfs ls r t) = calls t @ [r']"
  by (induction L ipfs ls r t rule: follow.induct) (simp_all split: option.splits)

text \<open>The fetches made so far stay; \<open>follow\<close> adds its own after them.\<close>

lemma fetches_follow_append: "\<exists>more. fetches (follow L ipfs ls r t) = fetches t @ more"
  by (induction L ipfs ls r t rule: follow.induct) (auto split: option.splits)

lemma fetches_follow_success:
  "calls (follow L ipfs ls r t) = calls t @ [Inr h] \<Longrightarrow>
   length (fetches (follow L ipfs ls r t)) = length (fetches t) + length ls"
  by (induction L ipfs ls r t rule: follow.induct) (simp_all split: option.splits)

lemma follow_success_last:
  "calls (follow L ipfs ls (object_get ipfs h0) t) = calls t @ [Inr h] \<Longrightarrow>
   fetches t \<noteq> [] \<Longrightarrow> last (fetches t) = h0 \<Longrightarrow>
   fetches (follow L ipfs ls (object_get ipfs h0) t) \<noteq> [] \<and>
   (\<exists>obj. object_get ipfs (last (fetches (follow L ipfs ls (object_get ipfs h0) t))) = Inr obj \<and>
      h = DAGNode.multihash obj)"
proof (induction ls arbitrary: h0 t)
  case Nil
  then show ?case by (cases "object_get ipfs h0") simp_all
next
  case (Cons linkName rest)
  show ?case
  proof (cases "object_get ipfs h0")
    case (Inl err)
    with Cons.prems show ?thesis by simp
  next
    case (Inr obj)
    show ?thesis
    proof (cases "find (\<lambda>link. name link = linkName) (DAGNode.links obj)")
      case None
      with Inr Cons.prems show ?thesis by simp
    next
      case (Some nextObj)
      with Inr Cons.prems
        Cons.IH [of "DAGLink.multihash nextObj" "fetching (DAGLink.multihash nextObj) t"]
      show ?thesis by simp
    qed
  qed
qed

lemma iteratee_links:
  assumes "parseIpfsPath L (JString s) = Inr p" and "ParsedPath.links p \<noteq> []"
    and "calls (iteratee L ipfs (JString s)) = [Inr h]"
  shows "\<exists>rootHash. multihashes_fromB58String L (root p) = Inr rootHash \<and>
     iteratee L ipfs (JString s) =
       follow L ipfs (ParsedPath.links p) (object_get ipfs rootHash) (fetching rootHash start)"
  using assms by (cases "multihashes_fromB58String L (root p)") (simp_all add: iteratee_JString)

text \<open>
  Resolution succeeds exactly along the walks of the graph, and then the trace is the
  multihash of the target and the fetches of the walk.
\<close>

lemma walk_Cons: "walk ipfs h ls hs obj \<Longrightarrow> \<exists>hs'. hs = h # hs'"
  by (cases rule: walk.cases) auto

lemma follow_walk:
  "walk ipfs h ls hs obj \<Longrightarrow>
   calls (follow L ipfs ls (object_get ipfs h) t) = calls t @ [Inr (DAGNode.multihash obj)] \<and>
   fetches (follow L ipfs ls (object_get ipfs h) t) = fetches t @ tl hs"
proof (induction arbitrary: t rule: walk.induct)
  case (arrive ipfs h obj)
  then show ?case by simp
next
  case (step ipfs h obj linkName nextObj rest hs target)
  from walk_Cons [OF step.hyps(3)] obtain hs' where hs: "hs = DAGLink.multihash nextObj # hs'"
    by blast
  from step.hyps(1,2) step.IH [of "fetching (DAGLink.multihash nextObj) t"]
  show ?case by (simp add: hs)
qed

lemma walk_last:
  "walk ipfs h ls hs obj \<Longrightarrow> hs \<noteq> [] \<and> hd hs = h \<and> object_get ipfs (last hs) = Inr obj"
  by (induction rule: walk.induct) auto

lemma walk_length: "walk ipfs h ls hs obj \<Longrightarrow> length hs = length ls + 1"
  by (induction rule: walk.induct) auto

lemma follow_success_walk:
  "calls (follow L ipfs ls (object_get ipfs h) t) = calls t @ [Inr r] \<Longrightarrow>
   \<exists>hs obj. walk ipfs h ls hs obj \<and> r = DAGNode.multihash obj"
proof (induction ls arbitrary: h t)
  case Nil
  then show ?case
    by (cases "object_get ipfs h") (auto intro: walk.arrive)
next
  case (Cons linkName rest)
  show ?case
  proof (cases "object_get ipfs h")
    case (Inl err)
    with Cons.prems show ?thesis by simp
  next
    case (Inr obj)
    show ?thesis
    proof (cases "find (\<lambda>link. name link = linkName) (DAGNode.links obj)")
      case None
      with Inr Cons.prems show ?thesis by simp
    next
      case (Some nextObj)
      with Inr Cons.prems
      have "calls (follow L ipfs rest (object_get ipfs (DAGLink.multihash nextObj))
          (fetching (DAGLink.multihash nextObj) t)) =
          calls (fetching (DAGLink.multihash nextObj) t) @ [Inr r]"
        by simp
      from Cons.IH [OF this] obtain hs target where
        "walk ipfs (DAGLink.multihash nextObj) rest hs target" "r = DAGNode.multihash target"
        by blast
      with Inr Some show ?thesis by (blast intro: walk.step)
    qed
  qed
qed

lemma resolves_along_walk:
  assumes "parseIpfsPath L (JString s) = Inr p" and "ParsedPath.links p \<noteq> []"
    and "multihashes_fromB58String L (root p) = Inr rootHash"
    and "walk ipfs rootHash (ParsedPath.links p) hs obj"
  shows "iteratee L ipfs (JString s) =
     \<lparr>calls = [Inr (DAGNode.multihash obj)], fetches = hs, threw = None\<rparr>"
proof -
  let ?t = "follow L ipfs (ParsedPath.links p) (object_get ipfs rootHash) (fetching rootHash start)"
  from walk_last [OF assms(4)] have "hs = rootHash # tl hs"
    by (cases hs) simp_all
  then have hs: "[rootHash] @ tl hs = hs"
    by simp
  from follow_walk [OF assms(4), of L "fetching rootHash start"] hs
  have "calls ?t = [Inr (DAGNode.multihash obj)]" and "fetches ?t = hs"
    by simp_all
  moreover have "threw ?t = None"
    by (simp add: threw_follow)
  moreover from assms(1-3) have "iteratee L ipfs (JString s) = ?t"
    by (simp add: iteratee_JString)
  ultimately show ?thesis
    by (cases "iteratee L ipfs (JString s)") simp
qed

text \<open>
  C1. A string with links that resolves (the one call of the continuation is
  \<^verbatim>\<open>cb(null, h)\<close>): \<open>h\<close> is the \<^verbatim>\<open>multihash\<close> field of the node that the last
  \<^verbatim>\<open>ipfs.object.get\<close> delivered. The multihash that fetch asked for is the target stored
  in the last link followed; the answer is read from the node, not from the link.
\<close>

theorem terminal_node_self_identifier:
  assumes "parseIpfsPath L (JString s) = Inr p" and "ParsedPath.links p \<noteq> []"
    and "calls (iteratee L ipfs (JString s)) = [Inr h]"
  shows "fetches (iteratee L ipfs (JString s)) \<noteq> [] \<and>
     (\<exists>obj. object_get ipfs (last (fetches (iteratee L ipfs (JString s)))) = Inr obj \<and>
        h = DAGNode.multihash obj)"
proof -
  from iteratee_links [OF assms] obtain rootHash where
    it: "iteratee L ipfs (JString s) =
       follow L ipfs (ParsedPath.links p) (object_get ipfs rootHash) (fetching rootHash start)"
    by blast
  with assms(3) have "calls (follow L ipfs (ParsedPath.links p) (object_get ipfs rootHash)
       (fetching rootHash start)) = calls (fetching rootHash start) @ [Inr h]"
    by simp
  from follow_success_last [OF this] it show ?thesis by simp
qed

text \<open>
  Where the node delivered for \<open>[2]\<close> calls itself \<open>[9]\<close>, the path \<open>root/a\<close>, whose
  link \<open>a\<close> stores the target \<open>[2]\<close>, resolves to \<open>[9]\<close>.
\<close>

theorem terminal_node_self_identifier_witness:
  "parseIpfsPath toyLib (JString ''root/a'') = Inr \<lparr>root = ''root'', links = [''a'']\<rparr> \<and>
   calls (iteratee toyLib relabelledGraph (JString ''root/a'')) = [Inr [9]] \<and>
   fetches (iteratee toyLib relabelledGraph (JString ''root/a'')) = [[1], [2]] \<and>
   object_get relabelledGraph [2] = Inr \<lparr>multihash = [9], links = []\<rparr>"
proof -
  have p: "parseIpfsPath toyLib (JString ''root/a'') = Inr \<lparr>root = ''root'', links = [''a'']\<rparr>"
    by code_simp
  have c: "calls (iteratee toyLib relabelledGraph (JString ''root/a'')) = [Inr [9]]"
    by code_simp
  have f: "fetches (iteratee toyLib relabelledGraph (JString ''root/a'')) = [[1], [2]]"
    by code_simp
  from terminal_node_self_identifier [OF p _ c] f
  have "\<exists>obj. object_get relabelledGraph [2] = Inr obj \<and> [9] = DAGNode.multihash obj"
    by simp
  then have "object_get relabelledGraph [2] = Inr \<lparr>multihash = [9], links = []\<rparr>"
    by (simp add: relabelledGraph_def)
  with p c f show ?thesis by simp
qed

text \<open>
  C2, as the code has it. A string with \<open>N \<ge> 1\<close> links that resolves costs \<open>N + 1\<close>
  calls of \<^verbatim>\<open>ipfs.object.get\<close>: line 86 fetches the root, and line 106 fetches the target
  of every link followed, the last of them the node whose multihash is returned.
\<close>

theorem fetches_root_and_every_link:
  assumes "parseIpfsPath L (JString s) = Inr p" and "ParsedPath.links p \<noteq> []"
    and "calls (iteratee L ipfs (JString s)) = [Inr h]"
  shows "length (fetches (iteratee L ipfs (JString s))) = length (ParsedPath.links p) + 1"
proof -
  from iteratee_links [OF assms] obtain rootHash where
    it: "iteratee L ipfs (JString s) =
       follow L ipfs (ParsedPath.links p) (object_get ipfs rootHash) (fetching rootHash start)"
    by blast
  with assms(3) have "calls (follow L ipfs (ParsedPath.links p) (object_get ipfs rootHash)
       (fetching rootHash start)) = calls (fetching rootHash start) @ [Inr h]"
    by simp
  from fetches_follow_success [OF this] it show ?thesis by simp
qed

theorem fetches_root_and_every_link_witness:
  "parseIpfsPath toyLib (JString ''root/a/b'') =
     Inr \<lparr>root = ''root'', links = [''a'', ''b'']\<rparr> \<and>
   calls (iteratee toyLib toyGraph (JString ''root/a/b'')) = [Inr [3]] \<and>
   length (fetches (iteratee toyLib toyGraph (JString ''root/a/b''))) = 3"
proof -
  have p: "parseIpfsPath toyLib (JString ''root/a/b'') =
      Inr \<lparr>root = ''root'', links = [''a'', ''b'']\<rparr>"
    by code_simp
  have c: "calls (iteratee toyLib toyGraph (JString ''root/a/b'')) = [Inr [3]]"
    by code_simp
  from fetches_root_and_every_link [OF p _ c] p c show ?thesis by simp
qed

text \<open>
  The claim of exactly \<open>N\<close> fetches fails on the graph \<open>root -a-> n1 -b-> n2\<close>: the
  path \<open>root/a/b\<close> has two links, resolves to \<open>n2\<close>, and fetches \<open>root\<close>, \<open>n1\<close>
  and \<open>n2\<close>.
\<close>

theorem one_fetch_per_link_counterexample:
  "parseIpfsPath toyLib (JString ''root/a/b'') =
     Inr \<lparr>root = ''root'', links = [''a'', ''b'']\<rparr> \<and>
   calls (iteratee toyLib toyGraph (JString ''root/a/b'')) = [Inr [3]] \<and>
   fetches (iteratee toyLib toyGraph (JString ''root/a/b'')) = [[1], [2], [3]] \<and>
   length (fetches (iteratee toyLib toyGraph (JString ''root/a/b''))) \<noteq> length [''a'', ''b'']"
  by code_simp




text \<open>The example of the specification, from the string to the trace.\<close>

lemma missing_link_example:
  "iteratee toyLib toyGraph (JString ''root/a/z'') =
     \<lparr>calls = [Inl (Error (''no link named '' @ [CHR 0x27] @ ''z'' @ [CHR 0x27] @ '' under '' @
        [CHR 0x02]))],
      fetches = [[1], [2]], threw = None\<rparr>"
  by code_simp

text \<open>
  C9. Of several links of the name sought, the first in the node's order is followed:
  the fetch that comes next asks for the target of that link, and the rest of the path
  is followed from what that fetch delivers. When the name is the last of the path, the
  continuation is called with the multihash of the node delivered for the first link,
  or with the error of that fetch. The links after the first have no part in it.
\<close>

theorem first_link_of_name_followed:
  assumes "DAGNode.links obj = before @ first # after"
    and "name first = linkName"
    and "\<forall>link \<in> set before. name link \<noteq> linkName"
  shows "take (Suc (length (fetches t)))
           (fetches (follow L ipfs (linkName # rest) (Inr obj) t)) =
           fetches t @ [DAGLink.multihash first] \<and>
         follow L ipfs (linkName # rest) (Inr obj) t =
           follow L ipfs rest (object_get ipfs (DAGLink.multihash first))
             (fetching (DAGLink.multihash first) t) \<and>
         fetches (follow L ipfs [linkName] (Inr obj) t) = fetches t @ [DAGLink.multihash first] \<and>
         calls (follow L ipfs [linkName] (Inr obj) t) =
           calls t @ [case object_get ipfs (DAGLink.multihash first) of
                        Inl err \<Rightarrow> Inl err
                      | Inr target \<Rightarrow> Inr (DAGNode.multihash target)]"
proof -
  from assms have found: "find (\<lambda>link. name link = linkName) (DAGNode.links obj) = Some first"
    by (auto simp: find_Some_iff nth_append intro!: exI [of _ "length before"])
  let ?next = "follow L ipfs rest (object_get ipfs (DAGLink.multihash first))
      (fetching (DAGLink.multihash first) t)"
  from fetches_follow_append [of L ipfs rest "object_get ipfs (DAGLink.multihash first)"
      "fetching (DAGLink.multihash first) t"]
  obtain more where "fetches ?next = (fetches t @ [DAGLink.multihash first]) @ more"
    by auto
  then have "take (Suc (length (fetches t))) (fetches ?next) = fetches t @ [DAGLink.multihash first]"
    by simp
  moreover from found have "follow L ipfs (linkName # rest) (Inr obj) t = ?next"
    by simp
  moreover from found
  have "fetches (follow L ipfs [linkName] (Inr obj) t) = fetches t @ [DAGLink.multihash first]"
    by (cases "object_get ipfs (DAGLink.multihash first)") simp_all
  moreover from found
  have "calls (follow L ipfs [linkName] (Inr obj) t) =
      calls t @ [case object_get ipfs (DAGLink.multihash first) of
                   Inl err \<Rightarrow> Inl err
                 | Inr target \<Rightarrow> Inr (DAGNode.multihash target)]"
    by (cases "object_get ipfs (DAGLink.multihash first)") simp_all
  ultimately show ?thesis by simp
qed

theorem first_link_of_name_followed_witness:
  "follow toyLib toyGraph [''b'']
     (Inr \<lparr>multihash = [2],
           links = [\<lparr>name = ''x'', multihash = [5]\<rparr>, \<lparr>name = ''b'', multihash = [3]\<rparr>,
                    \<lparr>name = ''b'', multihash = [4]\<rparr>]\<rparr>)
     \<lparr>calls = [], fetches = [[1], [2]], threw = None\<rparr> =
   \<lparr>calls = [Inr [3]], fetches = [[1], [2], [3]], threw = None\<rparr>"
  using first_link_of_name_followed [of
      "\<lparr>multihash = [2],
        links = [\<lparr>name = ''x'', multihash = [5]\<rparr>, \<lparr>name = ''b'', multihash = [3]\<rparr>,
                 \<lparr>name = ''b'', multihash = [4]\<rparr>]\<rparr>"
      "[\<lparr>name = ''x'', multihash = [5]\<rparr>]" "\<lparr>name = ''b'', multihash = [3]\<rparr>"
      "[\<lparr>name = ''b'', multihash = [4]\<rparr>]" "''b''"
      "\<lparr>calls = [], fetches = [[1], [2]], threw = None\<rparr>" toyLib toyGraph "[]"]
  by (simp add: toyGraph_def cb_def fetching_def)

lemma duplicate_link_example:
  "iteratee toyLib toyGraph (JString ''root/a/b'') =
     \<lparr>calls = [Inr [3]], fetches = [[1], [2], [3]], threw = None\<rparr>"
  by code_simp

subsection \<open>Inputs that are not strings\<close>

lemma iteratee_JBuffer:
  "iteratee L ipfs (JBuffer b) =
     \<lparr>calls = (case multihashes_validate L b of
                 Inl err \<Rightarrow> [Inl err, Inr b]
               | Inr u \<Rightarrow> [Inr b, Inl (TypeError ''ipfsPath.match is not a function'')]),
      fetches = [],
      threw = Some (Error ''Callback was already called.'')\<rparr>"
  by (simp add: iteratee_def notString_def parseIpfsPath_def cb_def start_def alreadyCalled_def
      Let_def split: sum.splits)

text \<open>
  C10, as the code has it. For every Buffer the continuation is called twice, and
  the second call throws \<open>Callback was already called.\<close> out of the function. A Buffer
  that \<^verbatim>\<open>multihashes.validate\<close> rejects gets \<^verbatim>\<open>cb(err)\<close> on line 68 and, for want of a
  \<^verbatim>\<open>return\<close> there, \<^verbatim>\<open>cb(null, path)\<close> on line 70. A Buffer that it accepts gets
  \<^verbatim>\<open>cb(null, path)\<close> and, for want of a \<^verbatim>\<open>return\<close> on line 70, control reaches
  \<^verbatim>\<open>parseIpfsPath(path)\<close>, which throws for a Buffer, and the \<^verbatim>\<open>catch\<close> of line 76 calls
  \<^verbatim>\<open>cb\<close> with the TypeError.
\<close>

theorem non_string_called_back_again:
  "1 < length (calls (iteratee L ipfs (JBuffer b))) \<and>
   calls (iteratee L ipfs (JBuffer b)) =
     (case multihashes_validate L b of
        Inl err \<Rightarrow> [Inl err, Inr b]
      | Inr u \<Rightarrow> [Inr b, Inl (TypeError ''ipfsPath.match is not a function'')]) \<and>
   threw (iteratee L ipfs (JBuffer b)) = Some (Error ''Callback was already called.'')"
  by (simp add: iteratee_JBuffer split: sum.splits)

theorem non_string_called_back_again_witness:
  "calls (iteratee toyLib toyGraph (JBuffer [])) =
     [Inl (Error ''multihash too short. must be > 3 bytes.''), Inr []] \<and>
   calls (iteratee toyLib toyGraph (JBuffer mhFF)) =
     [Inr mhFF, Inl (TypeError ''ipfsPath.match is not a function'')] \<and>
   threw (iteratee toyLib toyGraph (JBuffer [])) = Some (Error ''Callback was already called.'') \<and>
   threw (iteratee toyLib toyGraph (JBuffer mhFF)) = Some (Error ''Callback was already called.'')"
proof -
  have v: "multihashes_validate toyLib mhFF = Inr ()"
    by code_simp
  from non_string_called_back_again [of toyLib toyGraph "[]"]
    non_string_called_back_again [of toyLib toyGraph mhFF] v
  show ?thesis
    by (simp add: toyLib_def)
qed

text \<open>
  A Buffer that is rejected never reaches the parsing of line 75: the empty Buffer gets
  the error of the validator and itself, and no TypeError.
\<close>

theorem rejected_buffer_not_parsed_counterexample:
  "multihashes_validate toyLib [] = Inl (Error ''multihash too short. must be > 3 bytes.'') \<and>
   iteratee toyLib toyGraph (JBuffer []) =
     \<lparr>calls = [Inl (Error ''multihash too short. must be > 3 bytes.''), Inr []],
      fetches = [],
      threw = Some (Error ''Callback was already called.'')\<rparr> \<and>
   Inl (TypeError ''ipfsPath.match is not a function'')
     \<notin> set (calls (iteratee toyLib toyGraph (JBuffer [])))"
  by code_simp

text \<open>
  C3. A Buffer that is a valid multihash is handed to the continuation as it is and
  nothing is fetched, but the input is not settled by that: for want of a
  \<^verbatim>\<open>return\<close> on line 70 the continuation is called a second time, with a TypeError, and
  throws. The exception leaves \<^verbatim>\<open>resolveIpfsPaths\<close>, and an input that comes after the
  Buffer in the array is never started.
\<close>

theorem raw_identifier_then_type_error:
  "multihashes_validate toyLib mhFF = Inr () \<and>
   iteratee toyLib toyGraph (JBuffer mhFF) =
     \<lparr>calls = [Inr mhFF, Inl (TypeError ''ipfsPath.match is not a function'')],
      fetches = [],
      threw = Some (Error ''Callback was already called.'')\<rparr> \<and>
   resolveIpfsPaths toyLib toyGraph (Array [JBuffer mhFF, JString ''root'']) =
     [\<lparr>calls = [Inr mhFF, Inl (TypeError ''ipfsPath.match is not a function'')],
       fetches = [],
       threw = Some (Error ''Callback was already called.'')\<rparr>]"
  by code_simp

text \<open>No Buffer leads to a fetch.\<close>

lemma non_string_no_fetch: "fetches (iteratee L ipfs (JBuffer b)) = []"
  by (simp add: iteratee_JBuffer)

end
